theory Spec2Isabelle
  imports Main "HOL-Library.Sublist"
begin

section \<open>Python strings\<close>

text \<open>
  A Python \<open>str\<close> is a sequence of Unicode code points. Code points are natural numbers
  here (the 8-bit \<open>char\<close> of HOL cannot hold them all); the ASCII literals of the
  script are written \<open>str ''...''\<close>.
\<close>

type_synonym codepoint = nat
type_synonym pystr = "codepoint list"

definition str :: "string \<Rightarrow> pystr" where
  "str s = map of_char s"

text \<open>
  The class \<open>\s\<close> of the \<open>re\<close> module on a \<open>str\<close> pattern is Unicode white space:
  TAB..CR, FS..US, SPACE, NEL, NBSP, U+1680, U+2000..U+200A, U+2028, U+2029, U+202F,
  U+205F and U+3000.
\<close>

definition py_isspace :: "codepoint \<Rightarrow> bool" where
  "py_isspace c \<longleftrightarrow>
     (9 \<le> c \<and> c \<le> 13) \<or> (28 \<le> c \<and> c \<le> 32) \<or> c = 133 \<or> c = 160 \<or> c = 5760 \<or>
     (8192 \<le> c \<and> c \<le> 8202) \<or> c = 8232 \<or> c = 8233 \<or> c = 8239 \<or> c = 8287 \<or> c = 12288"

text \<open>\<open>s.endswith(suf)\<close>\<close>

definition endswith :: "pystr \<Rightarrow> pystr \<Rightarrow> bool" where
  "endswith s suf \<longleftrightarrow> suffix suf s"

text \<open>
  \<open>os.path.join(a, b)\<close> of \<open>posixpath\<close>: an absolute \<open>b\<close> replaces \<open>a\<close>; otherwise
  \<open>b\<close> is appended, after a separator unless \<open>a\<close> is empty or ends with one.
\<close>

definition sep :: codepoint where
  "sep = 47"

definition os_path_join :: "pystr \<Rightarrow> pystr \<Rightarrow> pystr" where
  "os_path_join a b =
     (if b \<noteq> [] \<and> hd b = sep then b
      else if a = [] \<or> last a = sep then a @ b
      else a @ [sep] @ b)"

section \<open>The regular expressions of the script\<close>

text \<open>
  The eight search expressions use two constructs only: literal characters (\<open>\(\<close> and
  \<open>\)\<close> are escaped parentheses, hence literal) and \<open>\s*\<close>. A pattern is the sequence
  of its items.
\<close>

datatype re_item = Lit pystr | Spaces

type_synonym regex = "re_item list"

fun strip_prefix :: "pystr \<Rightarrow> pystr \<Rightarrow> pystr option" where
  "strip_prefix [] s = Some s"
| "strip_prefix (c # w) [] = None"
| "strip_prefix (c # w) (x # s) = (if x = c then strip_prefix w s else None)"

text \<open>
  The backtracking matcher of \<open>re\<close>, anchored at the start of \<open>s\<close>: the rest of \<open>s\<close>
  behind the match, or \<open>None\<close>. \<open>\s*\<close> is greedy: it takes one more white space
  character first, and gives it back when the rest of the pattern fails behind it.
\<close>

fun match_here :: "regex \<Rightarrow> pystr \<Rightarrow> pystr option" where
  "match_here [] s = Some s"
| "match_here (Lit w # p) s =
     (case strip_prefix w s of None \<Rightarrow> None | Some s' \<Rightarrow> match_here p s')"
| "match_here (Spaces # p) [] = match_here p []"
| "match_here (Spaces # p) (x # s) =
     (if py_isspace x
      then (case match_here (Spaces # p) s of Some t \<Rightarrow> Some t | None \<Rightarrow> match_here p (x # s))
      else match_here p (x # s))"

text \<open>
  \<open>re.sub(pattern, repl, s)\<close> with a replacement text that has no backslash (none of
  the script's has one): scan from the left; where the pattern matches, emit the
  replacement and go on behind the match, otherwise copy one character. An empty match
  (none of the script's patterns has one) is replaced and the next character copied,
  as Python 3.7 and later do.
\<close>

function re_sub :: "regex \<Rightarrow> pystr \<Rightarrow> pystr \<Rightarrow> pystr" where
  "re_sub p repl s =
     (case match_here p s of
        Some t \<Rightarrow>
          if length t < length s then repl @ re_sub p repl t
          else repl @ (case s of [] \<Rightarrow> [] | x # xs \<Rightarrow> x # re_sub p repl xs)
      | None \<Rightarrow> (case s of [] \<Rightarrow> [] | x # xs \<Rightarrow> x # re_sub p repl xs))"
  by pat_completeness auto
termination
  by (relation "measure (\<lambda>(p, repl, s). length s)") auto

declare re_sub.simps [simp del]

section \<open>The script\<close>

text \<open>The list \<open>patterns\<close> of \<open>fix_frame_data_in_file\<close>, in its order.\<close>

definition patterns :: "(regex \<times> pystr) list" where
  "patterns =
     [([Lit (str ''video_data:'')], str ''render_data:''),
      ([Lit (str ''tally_data:''), Spaces, Lit (str ''None,'')], []),
      ([Lit (str ''scene3d_data:''), Spaces, Lit (str ''None,'')], []),
      ([Lit (str ''spatial_audio_data:''), Spaces, Lit (str ''None,'')], []),
      ([Lit (str ''transform_data:''), Spaces, Lit (str ''None,'')], str ''control_data: None,''),
      ([Lit (str ''Some(frame)'')], str ''Some(RenderData::Raster2D(frame))''),
      ([Lit (str ''Some(video_frame)'')], str ''Some(RenderData::Raster2D(video_frame))''),
      ([Lit (str ''Some(frame_data)'')], str ''Some(RenderData::Raster2D(frame_data))'')]"

text \<open>The loop \<open>for pattern, replacement in patterns: new_content = re.sub(...)\<close>.\<close>

fun apply_patterns :: "(regex \<times> pystr) list \<Rightarrow> pystr \<Rightarrow> pystr" where
  "apply_patterns [] new_content = new_content"
| "apply_patterns ((pattern, replacement) # ps) new_content =
     apply_patterns ps (re_sub pattern replacement new_content)"

text \<open>
  The file system, as far as the script sees it. Paths name files through \<open>resolve\<close>:
  a symbolic or hard link resolves to the path under which the file is kept, every other
  path to itself, and \<open>open\<close> follows it. A path that resolves to no file makes \<open>open\<close>
  raise. A file has the text that \<open>f.read()\<close> returns; it may refuse to be opened or
  decoded for reading, and may refuse to be opened for writing. Once it is open for
  writing it is empty, and \<open>room\<close> says how much of the new text reaches it: \<open>None\<close> all
  of it, \<open>Some n\<close> the first \<open>n\<close> characters, after which \<open>f.write\<close> or the
  closing of the file raises (full device, I/O error, a character the encoding lacks) and
  the file stays cut there. \<open>writes\<close> counts how often the file has been opened for
  writing (its modification state). \<open>stdout\<close> is the list of printed lines.
  \<open>transformed\<close> records, by the path they are kept under, the files whose content has
  gone through the pattern loop; it observes the run and is no part of the file system.
\<close>

record file_node =
  content :: pystr
  readable :: bool
  writable :: bool
  room :: "nat option"
  writes :: nat

record world =
  resolve :: "pystr \<Rightarrow> pystr"
  disk :: "pystr \<Rightarrow> file_node option"
  stdout :: "pystr list"
  transformed :: "pystr list"

datatype error = SyntaxError | ReadError pystr | WriteError pystr

text \<open>
  The body of \<open>fix_frame_data_in_file(filepath)\<close>, lines 4 to 28. Line 25 of the source
  is \<open>if new_content \!= content:\<close>, which is no Python (see \<open>main\<close> below); the
  definition takes its test as \<open>new_content != content\<close>, the comparison the line
  attempts, so it describes what would run were that line accepted, not what the module
  as it is does. Nothing in the body catches an exception: one raised by \<open>open\<close>, \<open>read\<close>
  or \<open>write\<close> ends the function at once, and the result is the world at that moment
  together with the exception.
\<close>

definition fix_frame_data_in_file :: "pystr \<Rightarrow> world \<Rightarrow> world \<times> error option" where
  "fix_frame_data_in_file filepath w =
     (case disk w (resolve w filepath) of
        None \<Rightarrow> (w, Some (ReadError filepath))
      | Some f \<Rightarrow>
          if \<not> readable f then (w, Some (ReadError filepath))
          else
            let new_content = apply_patterns patterns (content f);
                w1 = w\<lparr>transformed := transformed w @ [resolve w filepath]\<rparr>
            in
            if new_content \<noteq> content f then
              if \<not> writable f then (w1, Some (WriteError filepath))
              else
                (case room f of
                   None \<Rightarrow>
                     (w1\<lparr>disk := (disk w)(resolve w filepath \<mapsto>
                                f\<lparr>content := new_content, writes := Suc (writes f)\<rparr>),
                         stdout := stdout w @ [str ''Fixed patterns in '' @ filepath]\<rparr>, None)
                 | Some n \<Rightarrow>
                     if length new_content \<le> n then
                       (w1\<lparr>disk := (disk w)(resolve w filepath \<mapsto>
                                  f\<lparr>content := new_content, writes := Suc (writes f)\<rparr>),
                           stdout := stdout w @ [str ''Fixed patterns in '' @ filepath]\<rparr>, None)
                     else
                       (w1\<lparr>disk := (disk w)(resolve w filepath \<mapsto>
                                  f\<lparr>content := take n new_content, writes := Suc (writes f)\<rparr>)\<rparr>,
                        Some (WriteError filepath)))
            else (w1, None))"

text \<open>
  The directory tree under the root: a directory can be listed or not, and has
  subdirectories and other entries by name. \<open>os.walk(top)\<close>, called as the script calls
  it (top-down, no \<open>onerror\<close>, links not followed), yields \<open>(root, dirs, files)\<close> for
  every directory it can list, parents first; a directory whose listing fails is
  skipped without an exception, as the library documents for \<open>onerror=None\<close>.
\<close>

datatype dirtree = Dir (listable: bool) (subdirs: "(pystr \<times> dirtree) list") (nondirs: "pystr list")

fun os_walk :: "pystr \<Rightarrow> dirtree \<Rightarrow> (pystr \<times> pystr list \<times> pystr list) list" where
  "os_walk root (Dir ok subs names) =
     (if \<not> ok then []
      else (root, map fst subs, names) #
           concat (map (\<lambda>nd. os_walk (os_path_join root (fst nd)) (snd nd)) subs))"

text \<open>
  The inner loop \<open>for file in files\<close> and the outer loop over the walk, lines 31 to 35.
  Neither has a handler: the first exception of a call ends both.
\<close>

fun loop_files :: "pystr \<Rightarrow> pystr list \<Rightarrow> world \<Rightarrow> world \<times> error option" where
  "loop_files root [] w = (w, None)"
| "loop_files root (file # files) w =
     (if endswith file (str ''.rs'')
      then (case fix_frame_data_in_file (os_path_join root file) w of
              (w', Some e) \<Rightarrow> (w', Some e)
            | (w', None) \<Rightarrow> loop_files root files w')
      else loop_files root files w)"

fun loop_walk :: "(pystr \<times> pystr list \<times> pystr list) list \<Rightarrow> world \<Rightarrow> world \<times> error option" where
  "loop_walk [] w = (w, None)"
| "loop_walk ((root, dirs, files) # rest) w =
     (case loop_files root files w of
        (w', Some e) \<Rightarrow> (w', Some e)
      | (w', None) \<Rightarrow> loop_walk rest w')"

definition top_dir :: pystr where
  "top_dir = str ''/Users/mirabilis/dev/ConstellationStudio/crates/constellation-nodes/src''"

definition walk_loop :: "dirtree \<Rightarrow> world \<Rightarrow> world \<times> error option" where
  "walk_loop tree w = loop_walk (os_walk top_dir tree) w"

text \<open>
  The module as it is. Python reads the tokens of the whole file before it runs any
  statement of it. Outside a string literal and a comment a backslash has to be the last
  character of its line; one that is followed by anything else is the error
  \<open>unexpected character after line continuation character\<close>. Line 25, which has no
  string literal and no comment, is four spaces, \<open>if new_content\<close>, a space, a backslash
  (code point 92), \<open>!= content:\<close>. Every other line of the module is well formed.
\<close>

definition line_25 :: pystr where
  "line_25 = str ''    if new_content '' @ [92] @ str ''!= content:''"

fun tokenizes :: "pystr \<Rightarrow> bool" where
  "tokenizes [] \<longleftrightarrow> True"
| "tokenizes (c # s) \<longleftrightarrow> (if c = 92 then s = [] else tokenizes s)"

text \<open>
  A run of the script on a directory tree and a world: the world when the run ends, and
  the exception that ended it, if one did. A module that Python refuses ends with
  \<open>SyntaxError\<close> before its first statement; nothing is defined, walked, read, written or
  printed.
\<close>

definition main :: "dirtree \<Rightarrow> world \<Rightarrow> world \<times> error option" where
  "main tree w = (if tokenizes line_25 then walk_loop tree w else (w, Some SyntaxError))"

section \<open>Example worlds\<close>

text \<open>
  A readable, writable file with room for any text that has never been written, and a
  world of such files without links, where nothing has been printed or transformed yet.
\<close>

definition plain_file :: "pystr \<Rightarrow> file_node" where
  "plain_file c = \<lparr>content = c, readable = True, writable = True, room = None, writes = 0\<rparr>"

definition world_of :: "(pystr \<times> file_node) list \<Rightarrow> world" where
  "world_of fs = \<lparr>resolve = (\<lambda>p. p), disk = map_of fs, stdout = [], transformed = []\<rparr>"

section \<open>What a pattern denotes, and replacing all its occurrences\<close>

text \<open>
  The words a pattern matches, read off the pattern alone: a literal matches itself,
  \<open>\s*\<close> any run of white space, a sequence the concatenations.
\<close>

fun lang :: "regex \<Rightarrow> pystr \<Rightarrow> bool" where
  "lang [] m \<longleftrightarrow> m = []"
| "lang (Lit w # p) m \<longleftrightarrow> prefix w m \<and> lang p (drop (length w) m)"
| "lang (Spaces # p) m \<longleftrightarrow>
     (\<exists>k \<in> {..length m}. list_all py_isspace (take k m) \<and> lang p (drop k m))"

text \<open>
  Replacing every non-overlapping occurrence from left to right, as a relation between
  the text and the result: at the left end of the text either an occurrence (not empty)
  is replaced and the scan goes on behind it, or no occurrence starts there and one
  character is kept.
\<close>

inductive sub_all :: "regex \<Rightarrow> pystr \<Rightarrow> pystr \<Rightarrow> pystr \<Rightarrow> bool" for p repl where
  sub_nil: "sub_all p repl [] []"
| sub_hit: "lang p m \<Longrightarrow> m \<noteq> [] \<Longrightarrow> sub_all p repl t out \<Longrightarrow> sub_all p repl (m @ t) (repl @ out)"
| sub_miss: "\<forall>k \<in> {..Suc (length s)}. \<not> lang p (take k (x # s)) \<Longrightarrow> sub_all p repl s out \<Longrightarrow>
         sub_all p repl (x # s) (x # out)"

text \<open>The pattern matches somewhere in the text.\<close>

fun occurs :: "regex \<Rightarrow> pystr \<Rightarrow> bool" where
  "occurs p [] \<longleftrightarrow> match_here p [] \<noteq> None"
| "occurs p (x # s) \<longleftrightarrow> match_here p (x # s) \<noteq> None \<or> occurs p s"

text \<open>At one position a pattern of the script has at most one match.\<close>

definition one_match :: "regex \<Rightarrow> bool" where
  "one_match p \<longleftrightarrow>
     (\<forall>m1 m2 t1 t2. lang p m1 \<and> lang p m2 \<and> m1 @ t1 = m2 @ t2 \<longrightarrow> m1 = m2)"

text \<open>A character that no match of the pattern can contain.\<close>

definition outside :: "regex \<Rightarrow> codepoint \<Rightarrow> bool" where
  "outside p c \<longleftrightarrow> (\<forall>i \<in> set p. case i of Lit w \<Rightarrow> c \<notin> set w | Spaces \<Rightarrow> \<not> py_isspace c)"

section \<open>Auxiliary predicates\<close>

text \<open>
  The frame of a file, named by the path \<open>q\<close> it is kept under, between two worlds: the
  links are the same, the file is the same, and it has not gone through the pattern loop.
  The frame of a path \<open>p\<close> in the output: no line for it has been printed.
\<close>

definition untouched :: "pystr \<Rightarrow> world \<Rightarrow> world \<Rightarrow> bool" where
  "untouched q w w' \<longleftrightarrow>
     resolve w' = resolve w \<and> disk w' q = disk w q \<and>
     (\<exists>new. transformed w' = transformed w @ new \<and> q \<notin> set new)"

definition quiet :: "pystr \<Rightarrow> world \<Rightarrow> world \<Rightarrow> bool" where
  "quiet p w w' \<longleftrightarrow>
     (\<exists>new. stdout w' = stdout w @ new \<and> str ''Fixed patterns in '' @ p \<notin> set new)"

text \<open>
  A weight of texts that every replacement of the script lowers: the number of the
  characters \<open>v\<close>, \<open>y\<close>, \<open>3\<close>, \<open>p\<close> and \<open>f\<close>, minus the number of \<open>R\<close>.
\<close>

definition weight :: "pystr \<Rightarrow> int" where
  "weight s = int (count_list s 118) + int (count_list s 121) + int (count_list s 51) +
              int (count_list s 112) + int (count_list s 102) - int (count_list s 82)"

section \<open>The pattern list\<close>

lemmas eval_simps = patterns_def str_def re_sub.simps py_isspace_def

lemma endswith_eval: "endswith s t \<longleftrightarrow> prefix (rev t) (rev s)"
  by (simp add: endswith_def suffix_to_prefix)

lemmas run_simps = walk_loop_def top_dir_def os_path_join_def endswith_eval sep_def world_of_def
  plain_file_def fix_frame_data_in_file_def Let_def eval_simps

lemma apply_patterns_foldl:
  "apply_patterns ps c = foldl (\<lambda>c pr. re_sub (fst pr) (snd pr) c) c ps"
  by (induction ps c rule: apply_patterns.induct) simp_all



section \<open>The matcher and the substitution\<close>

lemma strip_prefix_Some: "strip_prefix w s = Some t \<longleftrightarrow> s = w @ t"
  by (induction w s rule: strip_prefix.induct) auto

lemma strip_prefix_None: "strip_prefix w s = None \<longleftrightarrow> \<not> prefix w s"
  by (induction w s rule: strip_prefix.induct) auto

lemma strip_prefix_append [simp]: "strip_prefix w (w @ t) = Some t"
  by (simp add: strip_prefix_Some)

lemma lang_Spaces_Cons:
  "lang (Spaces # p) (x # m) \<longleftrightarrow> lang p (x # m) \<or> (py_isspace x \<and> lang (Spaces # p) m)"
proof
  assume "lang (Spaces # p) (x # m)"
  then obtain k where k: "k \<le> Suc (length m)" "list_all py_isspace (take k (x # m))"
      "lang p (drop k (x # m))" by auto
  show "lang p (x # m) \<or> (py_isspace x \<and> lang (Spaces # p) m)"
  proof (cases k)
    case 0
    then show ?thesis using k by simp
  next
    case (Suc j)
    then have "py_isspace x" "j \<le> length m" "list_all py_isspace (take j m)" "lang p (drop j m)"
      using k by auto
    then show ?thesis by auto
  qed
next
  assume "lang p (x # m) \<or> (py_isspace x \<and> lang (Spaces # p) m)"
  then show "lang (Spaces # p) (x # m)"
  proof
    assume "lang p (x # m)"
    then have "list_all py_isspace (take 0 (x # m)) \<and> lang p (drop 0 (x # m))" by simp
    then show ?thesis unfolding lang.simps by (metis atMost_iff le0)
  next
    assume a: "py_isspace x \<and> lang (Spaces # p) m"
    then obtain j where "j \<le> length m" "list_all py_isspace (take j m)" "lang p (drop j m)"
      by auto
    then have "Suc j \<le> length (x # m)" "list_all py_isspace (take (Suc j) (x # m))"
      "lang p (drop (Suc j) (x # m))" using a by auto
    then show ?thesis unfolding lang.simps by (metis atMost_iff)
  qed
qed

lemma match_here_sound:
  "match_here p s = Some t \<Longrightarrow> \<exists>m. s = m @ t \<and> lang p m"
proof (induction p s arbitrary: t rule: match_here.induct)
  case (1 s)
  then show ?case by simp
next
  case (2 w p s)
  then obtain s' where s': "strip_prefix w s = Some s'" "match_here p s' = Some t"
    by (auto split: option.splits)
  then have s: "s = w @ s'" by (simp add: strip_prefix_Some)
  from "2.IH" [OF s'] obtain m where "s' = m @ t" "lang p m" by blast
  then have "s = (w @ m) @ t \<and> lang (Lit w # p) (w @ m)" using s by simp
  then show ?case by blast
next
  case (3 p)
  then obtain m where "[] = m @ t" "lang p m" by auto
  then show ?case by auto
next
  case (4 p x s)
  show ?case
  proof (cases "py_isspace x \<and> match_here (Spaces # p) s \<noteq> None")
    case True
    then have "match_here (Spaces # p) s = Some t" using "4.prems" by auto
    with "4.IH"(1) True obtain m where "s = m @ t" "lang (Spaces # p) m" by blast
    then have "x # s = (x # m) @ t \<and> lang (Spaces # p) (x # m)"
      using True by (simp add: lang_Spaces_Cons del: lang.simps)
    then show ?thesis by blast
  next
    case False
    then have mh: "match_here p (x # s) = Some t" using "4.prems" by (auto split: if_splits)
    have "\<exists>m. x # s = m @ t \<and> lang p m"
    proof (cases "py_isspace x")
      case True
      then have "match_here (Spaces # p) s = None" using False by simp
      from "4.IH"(2) [OF True this mh] show ?thesis .
    next
      case False
      from "4.IH"(3) [OF False mh] show ?thesis .
    qed
    then obtain m where m: "x # s = m @ t" "lang p m" by blast
    have "lang (Spaces # p) m"
    proof (cases m)
      case Nil
      then show ?thesis using m by simp
    next
      case (Cons a m')
      then show ?thesis using m by (simp add: lang_Spaces_Cons del: lang.simps)
    qed
    then show ?thesis using m by blast
  qed
qed

lemma match_here_None:
  "match_here p s = None \<Longrightarrow> prefix m s \<Longrightarrow> \<not> lang p m"
proof (induction p s arbitrary: m rule: match_here.induct)
  case (1 s)
  then show ?case by simp
next
  case (2 w p s)
  show ?case
  proof (cases "strip_prefix w s")
    case None
    then have "\<not> prefix w s" by (simp add: strip_prefix_None)
    then have "\<not> prefix w m" using "2.prems"(2) by (meson prefix_order.trans)
    then show ?thesis by simp
  next
    case (Some s')
    then have s: "s = w @ s'" by (simp add: strip_prefix_Some)
    have n: "match_here p s' = None" using "2.prems"(1) Some by simp
    show ?thesis
    proof
      assume l: "lang (Lit w # p) m"
      then obtain m' where m: "m = w @ m'" and lm: "lang p m'" by (auto simp: prefix_def)
      have "prefix m' s'" using "2.prems"(2) m s by simp
      from "2.IH" [OF Some n this] lm show False by simp
    qed
  qed
next
  case (3 p)
  then have "m = []" by simp
  moreover have "\<not> lang p []" using "3.IH" [of "[]"] "3.prems"(1) by simp
  ultimately show ?case by simp
next
  case (4 p x s)
  have n2: "match_here p (x # s) = None"
    using "4.prems"(1) by (auto split: if_splits option.splits)
  have np: "\<not> lang p m'" if "prefix m' (x # s)" for m'
  proof (cases "py_isspace x")
    case True
    then have "match_here (Spaces # p) s = None"
      using "4.prems"(1) by (auto split: option.splits)
    from "4.IH"(2) [OF True this n2 that] show ?thesis .
  next
    case False
    from "4.IH"(3) [OF False n2 that] show ?thesis .
  qed
  show ?case
  proof (cases m)
    case Nil
    then show ?thesis using np [of "[]"] by simp
  next
    case (Cons a m')
    then have a: "a = x" and pm: "prefix m' s" using "4.prems"(2) by auto
    have "\<not> (py_isspace x \<and> lang (Spaces # p) m')"
    proof
      assume c: "py_isspace x \<and> lang (Spaces # p) m'"
      then have "match_here (Spaces # p) s = None"
        using "4.prems"(1) by (auto split: option.splits)
      from "4.IH"(1) [OF conjunct1 [OF c] this pm] c show False by blast
    qed
    moreover have "\<not> lang p (x # m')" using np [of "x # m'"] pm by simp
    ultimately show ?thesis unfolding Cons a lang_Spaces_Cons by blast
  qed
qed

lemma match_here_complete: "lang p m \<Longrightarrow> match_here p (m @ t) \<noteq> None"
  using match_here_None [of p "m @ t" m] by auto

lemma match_here_shorter:
  assumes "\<not> lang p []" and "match_here p s = Some t"
  shows "length t < length s"
proof -
  from match_here_sound [OF assms(2)] obtain m where "s = m @ t" "lang p m" by blast
  with assms(1) show ?thesis by (cases m) auto
qed

lemma re_sub_hit:
  assumes "match_here p s = Some t" and "\<not> lang p []"
  shows "re_sub p r s = r @ re_sub p r t"
  using match_here_shorter [OF assms(2,1)] assms(1)
  by (subst re_sub.simps) simp

lemma re_sub_miss:
  assumes "match_here p (x # s) = None"
  shows "re_sub p r (x # s) = x # re_sub p r s"
  using assms by (subst re_sub.simps) simp

lemma re_sub_Nil:
  assumes "\<not> lang p []"
  shows "re_sub p r [] = []"
proof -
  have "match_here p [] = None"
  proof (cases "match_here p []")
    case (Some t)
    from match_here_shorter [OF assms Some] show ?thesis by simp
  qed simp
  then show ?thesis by (subst re_sub.simps) simp
qed

lemma re_sub_sub_all:
  assumes "\<not> lang p []"
  shows "sub_all p r s (re_sub p r s)"
proof (induction s rule: length_induct)
  case (1 s)
  show ?case
  proof (cases "match_here p s")
    case (Some t)
    from match_here_sound [OF Some] obtain m where m: "s = m @ t" "lang p m" by blast
    then have ne: "m \<noteq> []" using assms by auto
    then have "length t < length s" using m by simp
    with 1 have "sub_all p r t (re_sub p r t)" by blast
    from sub_all.sub_hit [OF m(2) ne this] show ?thesis
      using re_sub_hit [OF Some assms] m by simp
  next
    case None
    show ?thesis
    proof (cases s)
      case Nil
      then show ?thesis using re_sub_Nil [OF assms] by (simp add: sub_all.sub_nil)
    next
      case (Cons x xs)
      have "\<forall>k \<in> {..Suc (length xs)}. \<not> lang p (take k (x # xs))"
        using match_here_None [OF None [unfolded Cons]] take_is_prefix by blast
      moreover have "sub_all p r xs (re_sub p r xs)" using 1 Cons by simp
      ultimately show ?thesis
        using sub_all.sub_miss re_sub_miss [OF None [unfolded Cons]] Cons by metis
    qed
  qed
qed

lemma lang_Lit1: "lang [Lit w] m \<longleftrightarrow> m = w"
  by (auto simp: prefix_def)

lemma lang_field:
  "lang [Lit a, Spaces, Lit b] m \<longleftrightarrow> (\<exists>ws. list_all py_isspace ws \<and> m = a @ ws @ b)"
proof
  have sp: "lang [Spaces, Lit b] m' \<longleftrightarrow>
      (\<exists>k \<in> {..length m'}. list_all py_isspace (take k m') \<and> drop k m' = b)" for m'
    by (simp only: lang.simps(3) lang_Lit1)
  assume "lang [Lit a, Spaces, Lit b] m"
  then have "prefix a m" "lang [Spaces, Lit b] (drop (length a) m)" by simp_all
  then obtain m' k where m: "m = a @ m'" and k: "list_all py_isspace (take k m')"
    "drop k m' = b"
    unfolding sp by (auto simp: prefix_def)
  have "m' = take k m' @ b" using k(2) by (metis append_take_drop_id)
  then have "m = a @ take k m' @ b" using m by simp
  with k(1) show "\<exists>ws. list_all py_isspace ws \<and> m = a @ ws @ b" by blast
next
  assume "\<exists>ws. list_all py_isspace ws \<and> m = a @ ws @ b"
  then obtain ws where ws: "list_all py_isspace ws" "m = a @ ws @ b" by blast
  have "length ws \<in> {..length (ws @ b)}" by simp
  moreover have "list_all py_isspace (take (length ws) (ws @ b))" using ws(1) by simp
  moreover have "lang [Lit b] (drop (length ws) (ws @ b))" by simp
  ultimately have "lang [Spaces, Lit b] (ws @ b)" unfolding lang.simps(3) by blast
  then show "lang [Lit a, Spaces, Lit b] m" using ws(2) by simp
qed

lemma one_match_Lit: "one_match [Lit w]"
  by (simp only: one_match_def lang_Lit1) blast

lemma spaces_then_nonspace:
  assumes "list_all py_isspace ws1" and "list_all py_isspace ws2" and "\<not> py_isspace c"
    and "ws1 @ c # t1 = ws2 @ c # t2"
  shows "ws1 = ws2"
  using assms
proof (induction ws1 arbitrary: ws2)
  case Nil
  then show ?case by (cases ws2) auto
next
  case (Cons a ws1)
  then show ?case by (cases ws2) auto
qed

lemma one_match_field:
  assumes "\<not> py_isspace c"
  shows "one_match [Lit a, Spaces, Lit (c # b)]"
  unfolding one_match_def
proof (intro allI impI)
  fix m1 m2 t1 t2
  assume h: "lang [Lit a, Spaces, Lit (c # b)] m1 \<and> lang [Lit a, Spaces, Lit (c # b)] m2 \<and>
    m1 @ t1 = m2 @ t2"
  then obtain ws1 ws2 where ws: "list_all py_isspace ws1" "m1 = a @ ws1 @ c # b"
    "list_all py_isspace ws2" "m2 = a @ ws2 @ c # b"
    unfolding lang_field by auto
  from h ws have "ws1 @ c # (b @ t1) = ws2 @ c # (b @ t2)" by simp
  from spaces_then_nonspace [OF ws(1,3) assms this] ws show "m1 = m2" by simp
qed

lemma sub_all_unique:
  assumes "one_match p" and "\<not> lang p []" and "sub_all p r s out"
  shows "out = re_sub p r s"
  using assms(3)
proof (induction rule: sub_all.induct)
  case sub_nil
  show ?case by (simp add: re_sub_Nil [OF assms(2)])
next
  case (sub_hit m t out)
  from match_here_complete [OF sub_hit.hyps(1), of t] obtain t' where
    t': "match_here p (m @ t) = Some t'" by auto
  from match_here_sound [OF this] obtain m' where m': "m @ t = m' @ t'" "lang p m'" by blast
  then have "m = m'" using assms(1) sub_hit.hyps(1) unfolding one_match_def by blast
  then have "t' = t" using m' by simp
  then show ?case using re_sub_hit [OF t' assms(2)] sub_hit.IH by simp
next
  case (sub_miss s x out)
  have "match_here p (x # s) = None"
  proof (cases "match_here p (x # s)")
    case (Some t)
    from match_here_sound [OF Some] obtain m where m: "x # s = m @ t" "lang p m" by blast
    then have "m = take (length m) (x # s)" "length m \<le> Suc (length s)"
      by (auto simp: append_eq_conv_conj dest: arg_cong [where f = length])
    then show ?thesis using sub_miss.hyps(1) m(2) by (metis atMost_iff)
  qed simp
  then show ?case using re_sub_miss sub_miss.IH by simp
qed

lemma patterns_shape:
  assumes "(p, r) \<in> set patterns"
  shows "one_match p \<and> \<not> lang p []"
proof -
  have n: "\<not> py_isspace 78" by (simp add: py_isspace_def)
  have N: "str ''None,'' = 78 # str ''one,''" by (simp add: str_def)
  from assms show ?thesis
    unfolding patterns_def N
    by (auto simp: one_match_Lit one_match_field [OF n] str_def simp del: lang.simps(3))
qed

text \<open>
  C3. For every pattern of the list and every text, \<open>re_sub\<close> replaces every
  non-overlapping occurrence, scanning from the left: its result is the one and only
  result that \<open>sub_all\<close> allows, the relation that replaces an occurrence wherever one
  starts and keeps a character only where none does.
\<close>

theorem every_occurrence_replaced:
  "\<forall>(p, r) \<in> set patterns. \<forall>s out. sub_all p r s out \<longleftrightarrow> out = re_sub p r s"
proof (clarify, rule iffI)
  fix p r s out
  assume pr: "(p, r) \<in> set patterns"
  show "out = re_sub p r s" if "sub_all p r s out"
    using sub_all_unique that patterns_shape [OF pr] by blast
  show "sub_all p r s out" if "out = re_sub p r s"
    using re_sub_sub_all that patterns_shape [OF pr] by blast
qed

theorem every_occurrence_replaced_witness:
  "sub_all [Lit (str ''video_data:'')] (str ''render_data:'')
     (str ''a video_data: video_data:'') (str ''a render_data: render_data:'')"
proof -
  have m: "([Lit (str ''video_data:'')], str ''render_data:'') \<in> set patterns"
    by (simp add: patterns_def)
  have e: "re_sub [Lit (str ''video_data:'')] (str ''render_data:'') (str ''a video_data: video_data:'')
      = str ''a render_data: render_data:''"
    by (simp add: eval_simps)
  from bspec [OF every_occurrence_replaced m]
  have "sub_all [Lit (str ''video_data:'')] (str ''render_data:'') (str ''a video_data: video_data:'')
          (re_sub [Lit (str ''video_data:'')] (str ''render_data:'') (str ''a video_data: video_data:''))"
    by simp
  then show ?thesis unfolding e .
qed

lemma outside_Nil: "outside [] c"
  by (simp add: outside_def)

lemma outside_Cons:
  "outside (i # p) c \<longleftrightarrow> (case i of Lit w \<Rightarrow> c \<notin> set w | Spaces \<Rightarrow> \<not> py_isspace c) \<and> outside p c"
  by (simp add: outside_def)

lemma strip_prefix_sep:
  "c \<notin> set w \<Longrightarrow> strip_prefix w (u @ c # v) = map_option (\<lambda>t. t @ c # v) (strip_prefix w u)"
  by (induction w u rule: strip_prefix.induct) auto

lemma match_here_sep:
  "outside p c \<Longrightarrow> match_here p (u @ c # v) = map_option (\<lambda>t. t @ c # v) (match_here p u)"
proof (induction p u rule: match_here.induct)
  case (1 s)
  show ?case by simp
next
  case (2 w p s)
  then have c: "c \<notin> set w" and o: "outside p c" by (simp_all add: outside_Cons)
  show ?case
  proof (cases "strip_prefix w s")
    case None
    then show ?thesis by (simp add: strip_prefix_sep [OF c])
  next
    case (Some s')
    from "2.IH" [OF Some o] Some show ?thesis by (simp add: strip_prefix_sep [OF c])
  qed
next
  case (3 p)
  then have c: "\<not> py_isspace c" and o: "outside p c" by (simp_all add: outside_Cons)
  from "3.IH" [OF o] c show ?case by simp
next
  case (4 p x s)
  then have c: "\<not> py_isspace c" and o: "outside p c" by (simp_all add: outside_Cons)
  show ?case
  proof (cases "py_isspace x")
    case True
    note sp = True
    show ?thesis
    proof (cases "match_here (Spaces # p) s")
      case None
      from "4.IH"(1) [OF sp "4.prems"] "4.IH"(2) [OF sp None o] None sp
      show ?thesis by simp
    next
      case (Some t)
      from "4.IH"(1) [OF sp "4.prems"] Some sp show ?thesis by simp
    qed
  next
    case False
    from "4.IH"(3) [OF False o] False show ?thesis by simp
  qed
qed

lemma re_sub_sep:
  assumes "outside p c" and "\<not> lang p []"
  shows "re_sub p r (u @ c # v) = re_sub p r u @ c # re_sub p r v"
proof (induction u rule: length_induct)
  case (1 u)
  note m = match_here_sep [OF assms(1), of u v]
  show ?case
  proof (cases "match_here p u")
    case (Some t)
    then have mt: "match_here p (u @ c # v) = Some (t @ c # v)" using m by simp
    have "length t < length u" using match_here_shorter [OF assms(2) Some] .
    then have "re_sub p r (t @ c # v) = re_sub p r t @ c # re_sub p r v" using 1 by blast
    then show ?thesis
      using re_sub_hit [OF mt assms(2)] re_sub_hit [OF Some assms(2)] by simp
  next
    case None
    then have mn: "match_here p (u @ c # v) = None" using m by simp
    show ?thesis
    proof (cases u)
      case Nil
      then show ?thesis using mn re_sub_miss [of p c v] re_sub_Nil [OF assms(2)] by simp
    next
      case (Cons x xs)
      then have "re_sub p r (xs @ c # v) = re_sub p r xs @ c # re_sub p r v" using 1 by simp
      then show ?thesis
        using re_sub_miss [of p x "xs @ c # v"] re_sub_miss [of p x xs] mn None Cons by simp
    qed
  qed
qed

text \<open>A pattern whose first character occurs nowhere else in it: no match reaches over
  a later occurrence of that character.\<close>

lemma match_here_before_head:
  assumes "a \<notin> set w" and "outside rest a" and "u \<noteq> []"
  shows "match_here (Lit (a # w) # rest) (u @ a # v) =
         map_option (\<lambda>t. t @ a # v) (match_here (Lit (a # w) # rest) u)"
proof -
  from assms(3) obtain x u' where u: "u = x # u'" by (cases u) auto
  show ?thesis
  proof (cases "x = a")
    case False
    then show ?thesis by (simp add: u)
  next
    case True
    show ?thesis
    proof (cases "strip_prefix w u'")
      case None
      then show ?thesis using True by (simp add: u strip_prefix_sep [OF assms(1)])
    next
      case (Some s')
      then show ?thesis
        using True by (simp add: u strip_prefix_sep [OF assms(1)] match_here_sep [OF assms(2)])
    qed
  qed
qed

lemma re_sub_before_head:
  assumes "a \<notin> set w" and "outside rest a"
  shows "re_sub (Lit (a # w) # rest) r (u @ a # v) =
         re_sub (Lit (a # w) # rest) r u @ re_sub (Lit (a # w) # rest) r (a # v)"
proof (induction u rule: length_induct)
  case (1 u)
  let ?p = "Lit (a # w) # rest"
  have ne: "\<not> lang ?p []" by simp
  show ?case
  proof (cases u)
    case Nil
    then show ?thesis by (simp add: re_sub_Nil [OF ne])
  next
    case (Cons x xs)
    then have "u \<noteq> []" by simp
    note m = match_here_before_head [OF assms this, of v]
    show ?thesis
    proof (cases "match_here ?p u")
      case (Some t)
      then have mt: "match_here ?p (u @ a # v) = Some (t @ a # v)" using m by simp
      have "length t < length u" using match_here_shorter [OF ne Some] .
      then have "re_sub ?p r (t @ a # v) = re_sub ?p r t @ re_sub ?p r (a # v)" using 1 by blast
      then show ?thesis
        using re_sub_hit [OF mt ne] re_sub_hit [OF Some ne] by simp
    next
      case None
      then have mn: "match_here ?p (u @ a # v) = None" using m by simp
      have "re_sub ?p r (xs @ a # v) = re_sub ?p r xs @ re_sub ?p r (a # v)" using 1 Cons by simp
      then show ?thesis
        using re_sub_miss [of ?p x "xs @ a # v"] re_sub_miss [of ?p x xs] mn None Cons by simp
    qed
  qed
qed

lemma re_sub_step:
  assumes "\<not> lang p []"
  shows "re_sub p r (x # s) =
     (case match_here p (x # s) of Some t \<Rightarrow> r @ re_sub p r t | None \<Rightarrow> x # re_sub p r s)"
  using re_sub_hit [OF _ assms, of "x # s"] re_sub_miss [of p x s]
  by (cases "match_here p (x # s)") auto

lemmas block_simps = patterns_def str_def re_sub_sep re_sub_before_head outside_Cons outside_Nil
  re_sub_step py_isspace_def

lemma wrap_frame:
  "apply_patterns patterns (u @ str ''Some(frame)'' @ v) =
   apply_patterns patterns u @ str ''Some(RenderData::Raster2D(frame))'' @ apply_patterns patterns v"
  by (simp add: block_simps)

lemma wrap_video_frame:
  "apply_patterns patterns (u @ str ''Some(video_frame)'' @ v) =
   apply_patterns patterns u @ str ''Some(RenderData::Raster2D(video_frame))'' @ apply_patterns patterns v"
  by (simp add: block_simps)

lemma wrap_frame_data:
  "apply_patterns patterns (u @ str ''Some(frame_data)'' @ v) =
   apply_patterns patterns u @ str ''Some(RenderData::Raster2D(frame_data))'' @ apply_patterns patterns v"
  by (simp add: block_simps)

lemma wrapped_frame:
  "apply_patterns patterns (u @ str ''Some(RenderData::Raster2D(frame))'' @ v) =
   apply_patterns patterns u @ str ''Some(RenderData::Raster2D(frame))'' @ apply_patterns patterns v"
  by (simp add: block_simps)

lemma wrapped_video_frame:
  "apply_patterns patterns (u @ str ''Some(RenderData::Raster2D(video_frame))'' @ v) =
   apply_patterns patterns u @ str ''Some(RenderData::Raster2D(video_frame))'' @ apply_patterns patterns v"
  by (simp add: block_simps)

lemma wrapped_frame_data:
  "apply_patterns patterns (u @ str ''Some(RenderData::Raster2D(frame_data))'' @ v) =
   apply_patterns patterns u @ str ''Some(RenderData::Raster2D(frame_data))'' @ apply_patterns patterns v"
  by (simp add: block_simps)

text \<open>A match in a context: when no match that starts further left can reach into it.\<close>

lemma sub_all_in_context:
  assumes "sub_all p r u out" and "lang p M" and "M \<noteq> []" and "sub_all p r t out'"
    and ns: "\<And>w u' w'. lang p w \<Longrightarrow> w = u' @ w' \<Longrightarrow> u' \<noteq> [] \<Longrightarrow> w' \<noteq> [] \<Longrightarrow>
                prefix w' (M @ t) \<Longrightarrow> False"
  shows "sub_all p r (u @ M @ t) (out @ r @ out')"
  using assms(1)
proof (induction rule: sub_all.induct)
  case sub_nil
  show ?case using sub_all.sub_hit [OF assms(2,3,4)] by simp
next
  case (sub_hit m t0 out0)
  from sub_all.sub_hit [OF sub_hit.hyps(1,2) sub_hit.IH] show ?case by simp
next
  case (sub_miss s x out0)
  have "\<not> lang p (take k (x # s @ M @ t))" if "k \<in> {..Suc (length (s @ M @ t))}" for k
  proof
    assume l: "lang p (take k (x # s @ M @ t))"
    show False
    proof (cases "k \<le> Suc (length s)")
      case True
      then have "take k (x # s @ M @ t) = take k (x # s)" by (cases k) auto
      with l sub_miss.hyps(1) True show False by auto
    next
      case False
      then have k: "take k (x # s @ M @ t) = (x # s) @ take (k - Suc (length s)) (M @ t)"
        by (cases k) auto
      have ne: "take (k - Suc (length s)) (M @ t) \<noteq> []"
        using False assms(3) by auto
      have pf: "prefix (take (k - Suc (length s)) (M @ t)) (M @ t)" by (rule take_is_prefix)
      have xs: "x # s \<noteq> []" by simp
      from ns [OF l k xs ne pf] show False .
    qed
  qed
  then have "\<forall>k \<in> {..Suc (length (s @ M @ t))}. \<not> lang p (take k (x # s @ M @ t))" by blast
  from sub_all.sub_miss [OF this sub_miss.IH] show ?case by simp
qed

lemma re_sub_in_context:
  assumes "one_match p" and "\<not> lang p []" and "lang p M"
    and ns: "\<And>w u' w'. lang p w \<Longrightarrow> w = u' @ w' \<Longrightarrow> u' \<noteq> [] \<Longrightarrow> w' \<noteq> [] \<Longrightarrow>
                prefix w' (M @ t) \<Longrightarrow> False"
  shows "re_sub p r (u @ M @ t) = re_sub p r u @ r @ re_sub p r t"
proof -
  have ne: "M \<noteq> []" using assms(2,3) by auto
  have su: "sub_all p r u (re_sub p r u)" and st: "sub_all p r t (re_sub p r t)"
    by (rule re_sub_sub_all [OF assms(2)])+
  have "sub_all p r (u @ M @ t) (re_sub p r u @ r @ re_sub p r t)"
  proof (rule sub_all_in_context [OF su assms(3) ne st])
    fix w u' w'
    assume "lang p w" "w = u' @ w'" "u' \<noteq> []" "w' \<noteq> []" "prefix w' (M @ t)"
    then show False by (rule ns)
  qed
  from sub_all_unique [OF assms(1,2) this] show ?thesis by simp
qed

lemma transform_data_splits:
  assumes "str ''transform_data:'' = u' @ us" and "u' \<noteq> []" and "us \<noteq> []" and "hd us = 116"
  shows "us = str ''ta:''"
  using assms
  by (auto simp: str_def append_eq_Cons_conv Cons_eq_append_conv)

lemma transform_data_no_straddle:
  assumes l: "lang [Lit (str ''transform_data:''), Spaces, Lit (str ''None,'')] w"
    and w: "w = u' @ w'" and u': "u' \<noteq> []" and w': "w' \<noteq> []"
    and p: "prefix w' ((str ''transform_data:'' @ ws @ str ''None,'') @ t)"
  shows False
proof -
  from l obtain ws' where ws': "list_all py_isspace ws'"
    and fw: "w = str ''transform_data:'' @ ws' @ str ''None,''"
    unfolding lang_field by blast
  have h: "hd w' = 116" using p w' by (cases w') (auto simp: str_def)
  have h1: "w' ! 1 = 114" if "length w' \<ge> 2"
  proof -
    from p obtain z where "w' @ z = str ''transform_data:'' @ ws @ str ''None,'' @ t"
      by (auto simp: prefix_def)
    then have "(w' @ z) ! 1 = 114" by (simp add: str_def)
    then show ?thesis using that by (simp add: nth_append)
  qed
  from fw w have "str ''transform_data:'' @ (ws' @ str ''None,'') = u' @ w'" by simp
  then consider us where "str ''transform_data:'' = u' @ us" "us @ (ws' @ str ''None,'') = w'"
    | us where "str ''transform_data:'' @ us = u'" "ws' @ str ''None,'' = us @ w'"
    by (auto simp: append_eq_append_conv2)
  then show False
  proof cases
    case 1
    show False
    proof (cases "us = []")
      case True
      then have "w' = ws' @ str ''None,''" using 1 by simp
      then have "py_isspace (hd w') \<or> hd w' = 78"
        using ws' by (cases ws') (auto simp: str_def)
      then show False using h by (auto simp: py_isspace_def)
    next
      case False
      then have "hd us = 116" using 1(2) h by (cases us) auto
      from transform_data_splits [OF 1(1) u' False this] 1(2)
      have "w' = str ''ta:'' @ ws' @ str ''None,''" by simp
      then have "length w' \<ge> 2" "w' ! 1 = 97" by (simp_all add: str_def)
      then show False using h1 by simp
    qed
  next
    case 2
    have "116 \<in> set (ws' @ str ''None,'')"
      using 2(2) h w' by (cases w') auto
    then show False using ws' by (auto simp: str_def list_all_iff py_isspace_def)
  qed
qed

lemma transform_data_normalized:
  assumes "list_all py_isspace ws"
  shows "re_sub [Lit (str ''transform_data:''), Spaces, Lit (str ''None,'')] r
           (u @ (str ''transform_data:'' @ ws @ str ''None,'') @ t) =
         re_sub [Lit (str ''transform_data:''), Spaces, Lit (str ''None,'')] r u @ r @
         re_sub [Lit (str ''transform_data:''), Spaces, Lit (str ''None,'')] r t"
proof (rule re_sub_in_context)
  have n: "\<not> py_isspace 78" by (simp add: py_isspace_def)
  have N: "str ''None,'' = 78 # str ''one,''" by (simp add: str_def)
  show "one_match [Lit (str ''transform_data:''), Spaces, Lit (str ''None,'')]"
    unfolding N by (rule one_match_field [OF n])
  show "\<not> lang [Lit (str ''transform_data:''), Spaces, Lit (str ''None,'')] []"
    by (simp add: str_def)
  show "lang [Lit (str ''transform_data:''), Spaces, Lit (str ''None,'')]
          (str ''transform_data:'' @ ws @ str ''None,'')"
    unfolding lang_field using assms by blast
  show "\<And>w u' w'. lang [Lit (str ''transform_data:''), Spaces, Lit (str ''None,'')] w \<Longrightarrow>
       w = u' @ w' \<Longrightarrow> u' \<noteq> [] \<Longrightarrow> w' \<noteq> [] \<Longrightarrow>
       prefix w' ((str ''transform_data:'' @ ws @ str ''None,'') @ t) \<Longrightarrow> False"
    by (rule transform_data_no_straddle)
qed

lemma field_match_iff:
  assumes "\<not> py_isspace c"
  shows "match_here [Lit a, Spaces, Lit (c # b)] s = Some t \<longleftrightarrow>
         (\<exists>ws. list_all py_isspace ws \<and> s = a @ ws @ (c # b) @ t)"
proof
  assume "match_here [Lit a, Spaces, Lit (c # b)] s = Some t"
  from match_here_sound [OF this] show "\<exists>ws. list_all py_isspace ws \<and> s = a @ ws @ (c # b) @ t"
    unfolding lang_field by auto
next
  assume "\<exists>ws. list_all py_isspace ws \<and> s = a @ ws @ (c # b) @ t"
  then obtain ws where ws: "list_all py_isspace ws" "s = (a @ ws @ c # b) @ t" by auto
  then have l: "lang [Lit a, Spaces, Lit (c # b)] (a @ ws @ c # b)"
    unfolding lang_field by blast
  from match_here_complete [OF l, of t] obtain t' where
    t': "match_here [Lit a, Spaces, Lit (c # b)] s = Some t'" using ws(2) by auto
  from match_here_sound [OF t'] obtain m' where
    m': "s = m' @ t'" "lang [Lit a, Spaces, Lit (c # b)] m'" by blast
  have "a @ ws @ c # b = m'"
    using one_match_field [OF assms, of a b] l m' ws(2) unfolding one_match_def by blast
  then show "match_here [Lit a, Spaces, Lit (c # b)] s = Some t" using t' m' ws(2) by simp
qed

lemma None_text: "str ''None,'' = 78 # str ''one,''" and N_nonspace: "\<not> py_isspace 78"
  by (simp_all add: str_def py_isspace_def)

text \<open>
  C9. Each of the patterns for \<open>tally_data\<close>, \<open>scene3d_data\<close>, \<open>spatial_audio_data\<close> and
  \<open>transform_data\<close> matches at the start of a text exactly when the text starts with the
  field name and its colon, any run of white space (none, several spaces, newlines, tabs)
  and \<open>None,\<close>; the match ends behind the comma. Whatever the white space was, the
  \<open>transform_data\<close> pattern replaces such an occurrence, anywhere in any text, by
  \<open>control_data: None,\<close>, with one space, the text before and behind it being rewritten
  on its own.
\<close>

theorem field_patterns_any_whitespace:
  "(\<forall>s t. match_here (fst (patterns ! 1)) s = Some t \<longleftrightarrow>
      (\<exists>ws. list_all py_isspace ws \<and> s = str ''tally_data:'' @ ws @ str ''None,'' @ t)) \<and>
   (\<forall>s t. match_here (fst (patterns ! 2)) s = Some t \<longleftrightarrow>
      (\<exists>ws. list_all py_isspace ws \<and> s = str ''scene3d_data:'' @ ws @ str ''None,'' @ t)) \<and>
   (\<forall>s t. match_here (fst (patterns ! 3)) s = Some t \<longleftrightarrow>
      (\<exists>ws. list_all py_isspace ws \<and> s = str ''spatial_audio_data:'' @ ws @ str ''None,'' @ t)) \<and>
   (\<forall>s t. match_here (fst (patterns ! 4)) s = Some t \<longleftrightarrow>
      (\<exists>ws. list_all py_isspace ws \<and> s = str ''transform_data:'' @ ws @ str ''None,'' @ t)) \<and>
   (\<forall>u ws t. list_all py_isspace ws \<longrightarrow>
      re_sub (fst (patterns ! 4)) (snd (patterns ! 4))
        (u @ str ''transform_data:'' @ ws @ str ''None,'' @ t) =
      re_sub (fst (patterns ! 4)) (snd (patterns ! 4)) u @ str ''control_data: None,'' @
      re_sub (fst (patterns ! 4)) (snd (patterns ! 4)) t) \<and>
   list_all py_isspace [] \<and> list_all py_isspace (str ''   '') \<and> list_all py_isspace [10, 9, 13, 10]"
proof -
  note f = field_match_iff [OF N_nonspace, of _ "str ''one,''", folded None_text]
  have p: "fst (patterns ! 1) = [Lit (str ''tally_data:''), Spaces, Lit (str ''None,'')]"
    "fst (patterns ! 2) = [Lit (str ''scene3d_data:''), Spaces, Lit (str ''None,'')]"
    "fst (patterns ! 3) = [Lit (str ''spatial_audio_data:''), Spaces, Lit (str ''None,'')]"
    "fst (patterns ! 4) = [Lit (str ''transform_data:''), Spaces, Lit (str ''None,'')]"
    "snd (patterns ! 4) = str ''control_data: None,''"
    by (simp_all add: patterns_def)
  have r: "re_sub [Lit (str ''transform_data:''), Spaces, Lit (str ''None,'')] rp
             (u @ str ''transform_data:'' @ ws @ str ''None,'' @ t) =
           re_sub [Lit (str ''transform_data:''), Spaces, Lit (str ''None,'')] rp u @ rp @
           re_sub [Lit (str ''transform_data:''), Spaces, Lit (str ''None,'')] rp t"
    if "list_all py_isspace ws" for u ws t rp
    using transform_data_normalized [OF that, of rp u t] by simp
  have sp: "list_all py_isspace []" "list_all py_isspace (str ''   '')"
    "list_all py_isspace [10, 9, 13, 10]"
    by (simp_all add: str_def py_isspace_def)
  show ?thesis
    unfolding p
    apply (intro conjI allI impI)
           apply (rule f)
          apply (rule f)
         apply (rule f)
        apply (rule f)
       apply (erule r)
      apply (rule sp)+
    done
qed

theorem field_patterns_any_whitespace_witness:
  "re_sub (fst (patterns ! 4)) (snd (patterns ! 4))
     (str ''x { '' @ str ''transform_data:'' @ [10, 9, 13, 10] @ str ''None,'' @ str '' }'') =
   str ''x { control_data: None, }''"
proof -
  have sp: "list_all py_isspace [10, 9, 13, 10]" by (simp add: py_isspace_def)
  have e: "re_sub (fst (patterns ! 4)) (snd (patterns ! 4)) (str '' }'') = str '' }''"
    "re_sub (fst (patterns ! 4)) (snd (patterns ! 4)) (str ''x { '') = str ''x { ''"
    by (simp_all add: eval_simps)
  from field_patterns_any_whitespace sp
  have "re_sub (fst (patterns ! 4)) (snd (patterns ! 4))
     (str ''x { '' @ str ''transform_data:'' @ [10, 9, 13, 10] @ str ''None,'' @ str '' }'') =
      re_sub (fst (patterns ! 4)) (snd (patterns ! 4)) (str ''x { '') @
      str ''control_data: None,'' @ re_sub (fst (patterns ! 4)) (snd (patterns ! 4)) (str '' }'')"
    by (elim conjE allE [of _ "str ''x { ''"] allE [of _ "[10, 9, 13, 10]"] allE [of _ "str '' }''"])
      (rule mp)
  then show ?thesis unfolding e by (simp add: str_def)
qed

section \<open>The three wrapped forms\<close>

lemma lang_outside:
  "outside p c \<Longrightarrow> lang p m \<Longrightarrow> c \<notin> set m"
proof (induction p arbitrary: m)
  case Nil
  then show ?case by simp
next
  case (Cons i p)
  show ?case
  proof (cases i)
    case (Lit w)
    with Cons.prems obtain m' where m: "m = w @ m'" "lang p m'" "c \<notin> set w" "outside p c"
      by (auto simp: outside_Cons prefix_def)
    with Cons.IH show ?thesis by auto
  next
    case Spaces
    with Cons.prems obtain k where k: "list_all py_isspace (take k m)" "lang p (drop k m)"
      and c: "\<not> py_isspace c" "outside p c"
      by (auto simp: outside_Cons)
    from Cons.IH [OF c(2) k(2)] have "c \<notin> set (drop k m)" .
    moreover have "c \<notin> set (take k m)" using k(1) c(1) by (auto simp: list_all_iff)
    ultimately show ?thesis by (metis Un_iff append_take_drop_id set_append)
  qed
qed

lemma count_re_sub:
  assumes "outside p c" and "\<not> lang p []"
  shows "count_list s c \<le> count_list (re_sub p r s) c"
proof (induction s rule: length_induct)
  case (1 s)
  show ?case
  proof (cases "match_here p s")
    case (Some t)
    from match_here_sound [OF Some] obtain m where m: "s = m @ t" "lang p m" by blast
    have "count_list m c = 0" using lang_outside [OF assms(1) m(2)] by simp
    moreover have "count_list t c \<le> count_list (re_sub p r t) c"
      using 1 match_here_shorter [OF assms(2) Some] by blast
    ultimately show ?thesis using re_sub_hit [OF Some assms(2)] m(1) by simp
  next
    case None
    show ?thesis
    proof (cases s)
      case Nil
      then show ?thesis by simp
    next
      case (Cons x xs)
      then show ?thesis using 1 re_sub_miss [of p x xs] None by simp
    qed
  qed
qed

lemma count_apply_patterns:
  assumes "\<forall>(p, r) \<in> set ps. outside p c \<and> \<not> lang p []"
  shows "count_list s c \<le> count_list (apply_patterns ps s) c"
  using assms
proof (induction ps s rule: apply_patterns.induct)
  case (1 s)
  show ?case by simp
next
  case (2 p r ps s)
  then have "count_list s c \<le> count_list (re_sub p r s) c"
    using count_re_sub by simp
  moreover have "count_list (re_sub p r s) c \<le> count_list (apply_patterns ps (re_sub p r s)) c"
    using 2 by simp
  ultimately show ?case by simp
qed

lemma count_R_patterns: "count_list s 82 \<le> count_list (apply_patterns patterns s) 82"
  by (rule count_apply_patterns)
    (simp add: patterns_def str_def outside_Cons outside_Nil py_isspace_def)

lemma some_frame_changes:
  "apply_patterns patterns (u @ str ''Some(frame)'' @ v) \<noteq> u @ str ''Some(frame)'' @ v"
proof
  assume e: "apply_patterns patterns (u @ str ''Some(frame)'' @ v) = u @ str ''Some(frame)'' @ v"
  have "count_list (apply_patterns patterns (u @ str ''Some(frame)'' @ v)) 82 =
        count_list (apply_patterns patterns u) 82 + 2 + count_list (apply_patterns patterns v) 82"
    unfolding wrap_frame by (simp add: str_def)
  moreover have "count_list (u @ str ''Some(frame)'' @ v) 82 = count_list u 82 + count_list v 82"
    by (simp add: str_def)
  ultimately show False
    using e count_R_patterns [of u] count_R_patterns [of v] by simp
qed

lemma frame_pattern_skips_other_forms:
  "re_sub [Lit (str ''Some(frame)'')] r (u @ str ''Some(video_frame)'' @ v) =
   re_sub [Lit (str ''Some(frame)'')] r u @ str ''Some(video_frame)'' @ re_sub [Lit (str ''Some(frame)'')] r v"
  "re_sub [Lit (str ''Some(frame)'')] r (u @ str ''Some(frame_data)'' @ v) =
   re_sub [Lit (str ''Some(frame)'')] r u @ str ''Some(frame_data)'' @ re_sub [Lit (str ''Some(frame)'')] r v"
  by (simp_all add: block_simps)

lemma frame_pattern_not_in_other_forms:
  "\<not> occurs [Lit (str ''Some(frame)'')] (str ''Some(video_frame)'')"
  "\<not> occurs [Lit (str ''Some(frame)'')] (str ''Some(frame_data)'')"
  by (simp_all add: str_def)

text \<open>
  C10. The pattern \<open>Some\(frame\)\<close> occurs nowhere in \<open>Some(video_frame)\<close> or
  \<open>Some(frame_data)\<close>, and leaves both as they are in any text around them. In one pass,
  and in every text, each of the three forms \<open>Some(frame)\<close>, \<open>Some(video_frame)\<close> and
  \<open>Some(frame_data)\<close> becomes its form wrapped in \<open>RenderData::Raster2D(...)\<close> once,
  in place, the text before and behind it being transformed on its own; a form that is
  wrapped already stays as it is, so no pass wraps twice.
\<close>

theorem some_forms_wrapped_once:
  "(\<forall>u v. apply_patterns patterns (u @ str ''Some(frame)'' @ v) =
      apply_patterns patterns u @ str ''Some(RenderData::Raster2D(frame))'' @ apply_patterns patterns v) \<and>
   (\<forall>u v. apply_patterns patterns (u @ str ''Some(video_frame)'' @ v) =
      apply_patterns patterns u @ str ''Some(RenderData::Raster2D(video_frame))'' @ apply_patterns patterns v) \<and>
   (\<forall>u v. apply_patterns patterns (u @ str ''Some(frame_data)'' @ v) =
      apply_patterns patterns u @ str ''Some(RenderData::Raster2D(frame_data))'' @ apply_patterns patterns v) \<and>
   (\<forall>u v. apply_patterns patterns (u @ str ''Some(RenderData::Raster2D(frame))'' @ v) =
      apply_patterns patterns u @ str ''Some(RenderData::Raster2D(frame))'' @ apply_patterns patterns v) \<and>
   (\<forall>u v. apply_patterns patterns (u @ str ''Some(RenderData::Raster2D(video_frame))'' @ v) =
      apply_patterns patterns u @ str ''Some(RenderData::Raster2D(video_frame))'' @ apply_patterns patterns v) \<and>
   (\<forall>u v. apply_patterns patterns (u @ str ''Some(RenderData::Raster2D(frame_data))'' @ v) =
      apply_patterns patterns u @ str ''Some(RenderData::Raster2D(frame_data))'' @ apply_patterns patterns v) \<and>
   \<not> occurs (fst (patterns ! 5)) (str ''Some(video_frame)'') \<and>
   \<not> occurs (fst (patterns ! 5)) (str ''Some(frame_data)'') \<and>
   (\<forall>u v. re_sub (fst (patterns ! 5)) (snd (patterns ! 5)) (u @ str ''Some(video_frame)'' @ v) =
      re_sub (fst (patterns ! 5)) (snd (patterns ! 5)) u @ str ''Some(video_frame)'' @
      re_sub (fst (patterns ! 5)) (snd (patterns ! 5)) v) \<and>
   (\<forall>u v. re_sub (fst (patterns ! 5)) (snd (patterns ! 5)) (u @ str ''Some(frame_data)'' @ v) =
      re_sub (fst (patterns ! 5)) (snd (patterns ! 5)) u @ str ''Some(frame_data)'' @
      re_sub (fst (patterns ! 5)) (snd (patterns ! 5)) v)"
proof -
  have p: "fst (patterns ! 5) = [Lit (str ''Some(frame)'')]" by (simp add: patterns_def)
  show ?thesis
    unfolding p
    by (intro conjI allI wrap_frame wrap_video_frame wrap_frame_data wrapped_frame
        wrapped_video_frame wrapped_frame_data frame_pattern_skips_other_forms
        frame_pattern_not_in_other_forms)
qed

theorem some_forms_wrapped_once_witness:
  "apply_patterns patterns (str ''f(Some(video_frame), Some(RenderData::Raster2D(frame)))'') =
   str ''f(Some(RenderData::Raster2D(video_frame)), Some(RenderData::Raster2D(frame)))''"
proof -
  have s: "str ''f(Some(video_frame), Some(RenderData::Raster2D(frame)))'' =
      str ''f('' @ str ''Some(video_frame)'' @ (str '', '' @ str ''Some(RenderData::Raster2D(frame))'' @ str '')'')"
    by (simp add: str_def)
  have e: "apply_patterns patterns (str ''f('') = str ''f(''"
    "apply_patterns patterns (str '', '') = str '', ''"
    "apply_patterns patterns (str '')'') = str '')''"
    by (simp_all add: eval_simps)
  from some_forms_wrapped_once
  have 1: "apply_patterns patterns (u @ str ''Some(video_frame)'' @ v) =
      apply_patterns patterns u @ str ''Some(RenderData::Raster2D(video_frame))'' @ apply_patterns patterns v"
    and 2: "apply_patterns patterns (u @ str ''Some(RenderData::Raster2D(frame))'' @ v) =
      apply_patterns patterns u @ str ''Some(RenderData::Raster2D(frame))'' @ apply_patterns patterns v"
    for u v
    by simp_all
  show ?thesis unfolding s 1 2 e by (simp add: str_def)
qed

subsection \<open>A second pass\<close>

lemma not_occurs_re_sub: "\<not> occurs p s \<Longrightarrow> re_sub p r s = s"
proof (induction s)
  case Nil
  then show ?case by (subst re_sub.simps) simp
next
  case (Cons x s)
  then show ?case using re_sub_miss [of p x s] by simp
qed

lemma weight_append: "weight (s @ t) = weight s + weight t"
  by (simp add: weight_def)

lemma weight_Cons: "weight (x # s) = weight [x] + weight s"
  by (simp add: weight_def)

lemma occurs_Nil: "\<not> lang p [] \<Longrightarrow> \<not> occurs p []"
  using match_here_shorter [of p "[]"] by (cases "match_here p []") auto

lemma weight_re_sub:
  assumes "\<not> lang p []" and "\<And>m. lang p m \<Longrightarrow> weight r < weight m"
  shows "weight (re_sub p r s) \<le> weight s \<and> (occurs p s \<longrightarrow> weight (re_sub p r s) < weight s)"
proof (induction s rule: length_induct)
  case (1 s)
  show ?case
  proof (cases "match_here p s")
    case (Some t)
    from match_here_sound [OF Some] obtain m where m: "s = m @ t" "lang p m" by blast
    have "weight (re_sub p r t) \<le> weight t"
      using 1 match_here_shorter [OF assms(1) Some] by blast
    then have "weight (re_sub p r s) < weight s"
      using re_sub_hit [OF Some assms(1)] m assms(2) [OF m(2)] by (simp add: weight_append)
    then show ?thesis by simp
  next
    case None
    show ?thesis
    proof (cases s)
      case Nil
      then show ?thesis using re_sub_Nil [OF assms(1)] occurs_Nil [OF assms(1)] by simp
    next
      case (Cons x xs)
      have o: "occurs p s \<longleftrightarrow> occurs p xs" using None Cons by simp
      have "weight (re_sub p r xs) \<le> weight xs \<and> (occurs p xs \<longrightarrow> weight (re_sub p r xs) < weight xs)"
        using 1 Cons by simp
      then show ?thesis
        unfolding o using re_sub_miss [of p x xs] None Cons
        by (simp add: weight_Cons [of x xs] weight_Cons [of x "re_sub p r xs"])
    qed
  qed
qed

lemma apply_patterns_fixed_iff:
  assumes "\<forall>(p, r) \<in> set ps. \<not> lang p [] \<and> (\<forall>m. lang p m \<longrightarrow> weight r < weight m)"
  shows "weight (apply_patterns ps s) \<le> weight s \<and>
         (apply_patterns ps s = s \<longleftrightarrow> (\<forall>(p, r) \<in> set ps. \<not> occurs p s))"
  using assms
proof (induction ps arbitrary: s)
  case Nil
  show ?case by simp
next
  case (Cons pr ps)
  obtain p r where pr: "pr = (p, r)" by (cases pr) auto
  from Cons.prems have h: "\<not> lang p []" "\<And>m. lang p m \<Longrightarrow> weight r < weight m"
    and rest: "\<forall>(p, r) \<in> set ps. \<not> lang p [] \<and> (\<forall>m. lang p m \<longrightarrow> weight r < weight m)"
    by (auto simp: pr)
  note w = weight_re_sub [OF h, of s]
  note ih = Cons.IH [OF rest]
  show ?case
  proof (cases "occurs p s")
    case True
    then have "weight (apply_patterns ps (re_sub p r s)) < weight s"
      using w ih [of "re_sub p r s"] by simp
    then have "weight (apply_patterns ps (re_sub p r s)) \<le> weight s"
      and "apply_patterns ps (re_sub p r s) \<noteq> s" by auto
    then show ?thesis using True by (simp add: pr)
  next
    case False
    then have "re_sub p r s = s" by (rule not_occurs_re_sub)
    then show ?thesis using False ih [of s] by (simp add: pr)
  qed
qed

lemma weight_spaces: "list_all py_isspace ws \<Longrightarrow> weight ws = 0"
proof (induction ws)
  case Nil
  show ?case by (simp add: weight_def)
next
  case (Cons x ws)
  then have "py_isspace x" "weight ws = 0" by simp_all
  then show ?case using weight_Cons [of x ws] by (auto simp: py_isspace_def weight_def)
qed

lemma weight_field:
  assumes "lang [Lit a, Spaces, Lit b] m"
  shows "weight m = weight a + weight b"
proof -
  from assms obtain ws where "list_all py_isspace ws" "m = a @ ws @ b"
    unfolding lang_field by blast
  then show ?thesis by (simp add: weight_append weight_spaces)
qed

lemma patterns_weight:
  "\<forall>(p, r) \<in> set patterns. \<not> lang p [] \<and> (\<forall>m. lang p m \<longrightarrow> weight r < weight m)"
proof -
  have f: "\<not> lang [Lit a, Spaces, Lit b] [] \<and> (\<forall>m. lang [Lit a, Spaces, Lit b] m \<longrightarrow> weight r < weight m)"
    if "weight r < weight a + weight b" and "a \<noteq> []" for a b r
    using that weight_field [of a b] by (auto simp: prefix_def)
  have l: "\<not> lang [Lit a] [] \<and> (\<forall>m. lang [Lit a] m \<longrightarrow> weight r < weight m)"
    if "weight r < weight a" and "a \<noteq> []" for a r
    using that unfolding lang_Lit1 by auto
  have 1: "\<not> lang [Lit (str ''video_data:'')] [] \<and>
      (\<forall>m. lang [Lit (str ''video_data:'')] m \<longrightarrow> weight (str ''render_data:'') < weight m)"
    by (rule l) (simp_all add: str_def weight_def)
  have 2: "\<not> lang [Lit (str ''tally_data:''), Spaces, Lit (str ''None,'')] [] \<and>
      (\<forall>m. lang [Lit (str ''tally_data:''), Spaces, Lit (str ''None,'')] m \<longrightarrow> weight [] < weight m)"
    by (rule f) (simp_all add: str_def weight_def)
  have 3: "\<not> lang [Lit (str ''scene3d_data:''), Spaces, Lit (str ''None,'')] [] \<and>
      (\<forall>m. lang [Lit (str ''scene3d_data:''), Spaces, Lit (str ''None,'')] m \<longrightarrow> weight [] < weight m)"
    by (rule f) (simp_all add: str_def weight_def)
  have 4: "\<not> lang [Lit (str ''spatial_audio_data:''), Spaces, Lit (str ''None,'')] [] \<and>
      (\<forall>m. lang [Lit (str ''spatial_audio_data:''), Spaces, Lit (str ''None,'')] m \<longrightarrow> weight [] < weight m)"
    by (rule f) (simp_all add: str_def weight_def)
  have 5: "\<not> lang [Lit (str ''transform_data:''), Spaces, Lit (str ''None,'')] [] \<and>
      (\<forall>m. lang [Lit (str ''transform_data:''), Spaces, Lit (str ''None,'')] m \<longrightarrow>
           weight (str ''control_data: None,'') < weight m)"
    by (rule f) (simp_all add: str_def weight_def)
  have 6: "\<not> lang [Lit (str ''Some(frame)'')] [] \<and>
      (\<forall>m. lang [Lit (str ''Some(frame)'')] m \<longrightarrow>
           weight (str ''Some(RenderData::Raster2D(frame))'') < weight m)"
    by (rule l) (simp_all add: str_def weight_def)
  have 7: "\<not> lang [Lit (str ''Some(video_frame)'')] [] \<and>
      (\<forall>m. lang [Lit (str ''Some(video_frame)'')] m \<longrightarrow>
           weight (str ''Some(RenderData::Raster2D(video_frame))'') < weight m)"
    by (rule l) (simp_all add: str_def weight_def)
  have 8: "\<not> lang [Lit (str ''Some(frame_data)'')] [] \<and>
      (\<forall>m. lang [Lit (str ''Some(frame_data)'')] m \<longrightarrow>
           weight (str ''Some(RenderData::Raster2D(frame_data))'') < weight m)"
    by (rule l) (simp_all add: str_def weight_def)
  show ?thesis
    unfolding patterns_def list.set ball_simps case_prod_conv
    using 1 2 3 4 5 6 7 8 by blast
qed

text \<open>
  C5, as amended. A second pass over the output of a first one changes nothing exactly
  when that output contains no occurrence of any of the eight search expressions; a pass
  leaves a text as it is exactly when no pattern occurs in it. No replacement text is
  itself changed by a pass; it is a deletion that can join the text around it to a new
  occurrence.
\<close>

theorem second_pass_noop_iff:
  "(apply_patterns patterns (apply_patterns patterns s) = apply_patterns patterns s \<longleftrightarrow>
      (\<forall>(p, r) \<in> set patterns. \<not> occurs p (apply_patterns patterns s))) \<and>
   (apply_patterns patterns s = s \<longleftrightarrow> (\<forall>(p, r) \<in> set patterns. \<not> occurs p s)) \<and>
   (\<forall>(p, r) \<in> set patterns. apply_patterns patterns r = r)"
proof -
  have "\<forall>(p, r) \<in> set patterns. apply_patterns patterns r = r"
    unfolding patterns_def [of] list.set ball_simps case_prod_conv
    by (intro conjI) (simp_all add: eval_simps)
  then show ?thesis using apply_patterns_fixed_iff [OF patterns_weight] by blast
qed

theorem second_pass_noop_iff_witness:
  "apply_patterns patterns (apply_patterns patterns (str ''x video_data: Some(frame)'')) =
   apply_patterns patterns (str ''x video_data: Some(frame)'')"
proof -
  have e: "apply_patterns patterns (str ''x video_data: Some(frame)'') =
           str ''x render_data: Some(RenderData::Raster2D(frame))''"
    by (simp add: eval_simps)
  have "\<forall>(p, r) \<in> set patterns. \<not> occurs p (str ''x render_data: Some(RenderData::Raster2D(frame))'')"
    unfolding patterns_def
    apply (simp only: list.set ball_simps case_prod_conv)
    apply (intro conjI)
    apply (simp_all add: str_def py_isspace_def)
    done
  then show ?thesis
    using second_pass_noop_iff [of "str ''x video_data: Some(frame)''"] unfolding e by blast
qed

text \<open>
  The claim as stated fails: the first pass deletes \<open>tally_data: None,\<close> and so joins
  \<open>video_\<close> and \<open>data:\<close>; only the second pass renames the result.
\<close>

theorem second_pass_changes_text:
  "apply_patterns patterns (str ''video_tally_data: None,data:'') = str ''video_data:'' \<and>
   apply_patterns patterns (apply_patterns patterns (str ''video_tally_data: None,data:'')) =
     str ''render_data:'' \<and>
   apply_patterns patterns (apply_patterns patterns (str ''video_tally_data: None,data:'')) \<noteq>
     apply_patterns patterns (str ''video_tally_data: None,data:'')"
proof -
  have 1: "apply_patterns patterns (str ''video_tally_data: None,data:'') = str ''video_data:''"
    by (simp add: eval_simps)
  have 2: "apply_patterns patterns (str ''video_data:'') = str ''render_data:''"
    by (simp add: eval_simps)
  have 3: "str ''render_data:'' \<noteq> str ''video_data:''" by (simp add: str_def)
  show ?thesis unfolding 1 2 using 3 by simp
qed

section \<open>The body of the script\<close>

subsection \<open>One call\<close>

lemma fix_rewrites:
  assumes "disk w (resolve w filepath) = Some f" and "readable f" and "writable f"
    and "case room f of None \<Rightarrow> True | Some n \<Rightarrow> length (apply_patterns patterns (content f)) \<le> n"
    and "apply_patterns patterns (content f) \<noteq> content f"
  shows "fix_frame_data_in_file filepath w =
     (w\<lparr>transformed := transformed w @ [resolve w filepath],
        disk := (disk w)(resolve w filepath \<mapsto>
                  f\<lparr>content := apply_patterns patterns (content f), writes := Suc (writes f)\<rparr>),
        stdout := stdout w @ [str ''Fixed patterns in '' @ filepath]\<rparr>, None)"
  using assms
  by (auto simp: fix_frame_data_in_file_def Let_def split: option.splits)

lemma fix_leaves:
  assumes "disk w (resolve w filepath) = Some f" and "readable f"
    and "apply_patterns patterns (content f) = content f"
  shows "fix_frame_data_in_file filepath w =
     (w\<lparr>transformed := transformed w @ [resolve w filepath]\<rparr>, None)"
  using assms
  by (simp add: fix_frame_data_in_file_def Let_def)





lemma fix_some_frame:
  assumes "disk w (resolve w filepath) = Some f" and "readable f" and "writable f"
    and "room f = None" and "content f = u @ str ''Some(frame)'' @ v"
  shows "fix_frame_data_in_file filepath w =
     (w\<lparr>transformed := transformed w @ [resolve w filepath],
        disk := (disk w)(resolve w filepath \<mapsto>
                  f\<lparr>content := apply_patterns patterns u @ str ''Some(RenderData::Raster2D(frame))'' @
                                apply_patterns patterns v,
                    writes := Suc (writes f)\<rparr>),
        stdout := stdout w @ [str ''Fixed patterns in '' @ filepath]\<rparr>, None)"
proof -
  have "apply_patterns patterns (content f) \<noteq> content f"
    using some_frame_changes [of u v] assms(5) by simp
  from fix_rewrites [OF assms(1,2,3) _ this] assms(4,5) show ?thesis
    by (simp add: wrap_frame)
qed

subsection \<open>What one call may touch\<close>

lemma untouched_refl: "untouched q w w"
  by (simp add: untouched_def)

lemma untouched_trans: "untouched q w w1 \<Longrightarrow> untouched q w1 w2 \<Longrightarrow> untouched q w w2"
  by (auto simp: untouched_def)

lemma quiet_refl: "quiet p w w"
  by (simp add: quiet_def)

lemma quiet_trans: "quiet p w w1 \<Longrightarrow> quiet p w1 w2 \<Longrightarrow> quiet p w w2"
  by (auto simp: quiet_def)

lemma fix_untouched:
  assumes "resolve w p \<noteq> q"
  shows "untouched q w (fst (fix_frame_data_in_file p w))"
  using assms
  by (auto simp: fix_frame_data_in_file_def Let_def untouched_def split: option.splits)

lemma fix_quiet:
  assumes "p \<noteq> p'"
  shows "quiet p' w (fst (fix_frame_data_in_file p w))"
  using assms
  by (auto simp: fix_frame_data_in_file_def Let_def quiet_def split: option.splits)

lemma endswith_join:
  assumes "endswith file suf"
  shows "endswith (os_path_join root file) suf"
  using assms
  by (auto simp: endswith_def os_path_join_def suffix_def)

lemma loop_files_untouched:
  assumes "\<forall>p. endswith p (str ''.rs'') \<longrightarrow> resolve w p \<noteq> q"
  shows "untouched q w (fst (loop_files root fs w))"
  using assms
proof (induction fs arbitrary: w)
  case Nil
  show ?case by (simp add: untouched_refl)
next
  case (Cons fname fs)
  show ?case
  proof (cases "endswith fname (str ''.rs'')")
    case False
    then show ?thesis using Cons by simp
  next
    case True
    then have "resolve w (os_path_join root fname) \<noteq> q"
      using Cons.prems endswith_join by blast
    from fix_untouched [OF this]
    have u: "untouched q w (fst (fix_frame_data_in_file (os_path_join root fname) w))" .
    obtain w' r where f: "fix_frame_data_in_file (os_path_join root fname) w = (w', r)"
      by (cases "fix_frame_data_in_file (os_path_join root fname) w") auto
    show ?thesis
    proof (cases r)
      case (Some e)
      then show ?thesis using True f u by simp
    next
      case None
      have "resolve w' = resolve w" using u f by (simp add: untouched_def)
      then have "\<forall>p. endswith p (str ''.rs'') \<longrightarrow> resolve w' p \<noteq> q" using Cons.prems by simp
      from Cons.IH [OF this] u f None True show ?thesis
        by (auto intro: untouched_trans)
    qed
  qed
qed

lemma loop_walk_untouched:
  assumes "\<forall>p. endswith p (str ''.rs'') \<longrightarrow> resolve w p \<noteq> q"
  shows "untouched q w (fst (loop_walk walk w))"
  using assms
proof (induction walk arbitrary: w)
  case Nil
  show ?case by (simp add: untouched_refl)
next
  case (Cons t walk)
  obtain root dirs fs where t: "t = (root, dirs, fs)" by (cases t) auto
  obtain w1 r where lf: "loop_files root fs w = (w1, r)" by (cases "loop_files root fs w") auto
  have u1: "untouched q w w1"
    using loop_files_untouched [OF Cons.prems, of root fs] lf by simp
  show ?case
  proof (cases r)
    case None
    have "resolve w1 = resolve w" using u1 by (simp add: untouched_def)
    then have "\<forall>p. endswith p (str ''.rs'') \<longrightarrow> resolve w1 p \<noteq> q" using Cons.prems by simp
    from Cons.IH [OF this] show ?thesis
      using t lf u1 None by (auto intro: untouched_trans)
  next
    case (Some e)
    then show ?thesis using t lf u1 by simp
  qed
qed

lemma loop_files_quiet:
  assumes "\<not> endswith p (str ''.rs'')"
  shows "quiet p w (fst (loop_files root fs w))"
proof (induction fs arbitrary: w)
  case Nil
  show ?case by (simp add: quiet_refl)
next
  case (Cons fname fs)
  show ?case
  proof (cases "endswith fname (str ''.rs'')")
    case False
    then show ?thesis using Cons.IH by simp
  next
    case True
    then have "os_path_join root fname \<noteq> p"
      using assms endswith_join by blast
    from fix_quiet [OF this]
    have u: "quiet p w (fst (fix_frame_data_in_file (os_path_join root fname) w))" .
    obtain w' r where f: "fix_frame_data_in_file (os_path_join root fname) w = (w', r)"
      by (cases "fix_frame_data_in_file (os_path_join root fname) w") auto
    show ?thesis
    proof (cases r)
      case (Some e)
      then show ?thesis using True f u by simp
    next
      case None
      from Cons.IH [of w'] u f None True show ?thesis
        by (auto intro: quiet_trans)
    qed
  qed
qed

lemma loop_walk_quiet:
  assumes "\<not> endswith p (str ''.rs'')"
  shows "quiet p w (fst (loop_walk walk w))"
proof (induction walk arbitrary: w)
  case Nil
  show ?case by (simp add: quiet_refl)
next
  case (Cons t walk)
  obtain root dirs fs where t: "t = (root, dirs, fs)" by (cases t) auto
  obtain w1 r where lf: "loop_files root fs w = (w1, r)" by (cases "loop_files root fs w") auto
  have u1: "quiet p w w1"
    using loop_files_quiet [OF assms, of w root fs] lf by simp
  show ?case
  proof (cases r)
    case None
    then show ?thesis
      using t lf u1 Cons.IH [of w1] by (auto intro: quiet_trans)
  next
    case (Some e)
    then show ?thesis using t lf u1 by simp
  qed
qed

text \<open>
  The loops touch no file but those that a name ending in \<open>.rs\<close> leads to, through a
  link or not, and print no line for any other name.
\<close>

lemma walk_loop_untouched:
  assumes "\<forall>p. endswith p (str ''.rs'') \<longrightarrow> resolve w p \<noteq> q"
  shows "untouched q w (fst (walk_loop tree w))"
  unfolding walk_loop_def using assms by (rule loop_walk_untouched)

lemma walk_loop_quiet:
  assumes "\<not> endswith p (str ''.rs'')"
  shows "quiet p w (fst (walk_loop tree w))"
  unfolding walk_loop_def using assms by (rule loop_walk_quiet)

text \<open>
  The condition on the links is needed: a file whose own name does not end in \<open>.rs\<close>, but
  to which a link of such a name leads, is read and written by the loops.
\<close>

lemma linked_file_rewritten:
  "map_option content
     (disk (fst (walk_loop (Dir True [] [str ''l.rs'', str ''notes.txt''])
        ((world_of [(top_dir @ str ''/notes.txt'', plain_file (str ''video_data:''))])
           \<lparr>resolve := (\<lambda>p. if p = top_dir @ str ''/l.rs'' then top_dir @ str ''/notes.txt'' else p)\<rparr>)))
        (top_dir @ str ''/notes.txt'')) = Some (str ''render_data:'')"
  by (simp add: run_simps)

subsection \<open>Exceptions\<close>







section \<open>The module as it is\<close>

text \<open>Line 25 does not pass: every run ends with \<open>SyntaxError\<close>, in the world it began in.\<close>

lemma main_refused: "main tree w = (w, Some SyntaxError)"
  by (simp add: main_def line_25_def str_def)

text \<open>
  C6. A run of the script leaves every file as it was, content and write count, whatever
  its name and whether a link leads to it; it prints no line and puts no text through the
  pattern loop: it ends with \<open>SyntaxError\<close> before its first statement. In particular
  this holds of every file whose name does not end in \<open>.rs\<close>, whatever it contains. Nor
  do the loops of lines 31 to 35, with the test of line 25 taken as \<open>!=\<close>, reach such a
  file: a file that no name ending in \<open>.rs\<close> leads to keeps its content and write count
  and does not go through the pattern loop, and no line is printed for a name that does
  not end in \<open>.rs\<close>.
\<close>

theorem other_files_untouched:
  "disk (fst (main tree w)) q = disk w q \<and>
   resolve (fst (main tree w)) = resolve w \<and>
   stdout (fst (main tree w)) = stdout w \<and>
   transformed (fst (main tree w)) = transformed w \<and>
   snd (main tree w) = Some SyntaxError \<and>
   ((\<forall>p. endswith p (str ''.rs'') \<longrightarrow> resolve w p \<noteq> q) \<longrightarrow>
      untouched q w (fst (walk_loop tree w))) \<and>
   (\<not> endswith q (str ''.rs'') \<longrightarrow> quiet q w (fst (walk_loop tree w)))"
  using walk_loop_untouched [of w q tree] walk_loop_quiet [of q w tree]
  by (simp add: main_refused)

theorem other_files_untouched_witness:
  "map_option content
     (disk (fst (main (Dir True [] [str ''a.rs'', str ''l.rs'', str ''notes.txt''])
        ((world_of [(top_dir @ str ''/a.rs'', plain_file (str ''video_data:'')),
                    (top_dir @ str ''/notes.txt'', plain_file (str ''video_data:''))])
           \<lparr>resolve := (\<lambda>p. if p = top_dir @ str ''/l.rs'' then top_dir @ str ''/a.rs'' else p)\<rparr>)))
        (top_dir @ str ''/notes.txt'')) = Some (str ''video_data:'') \<and>
   map_option content
     (disk (fst (walk_loop (Dir True [] [str ''a.rs'', str ''l.rs'', str ''notes.txt''])
        ((world_of [(top_dir @ str ''/a.rs'', plain_file (str ''video_data:'')),
                    (top_dir @ str ''/notes.txt'', plain_file (str ''video_data:''))])
           \<lparr>resolve := (\<lambda>p. if p = top_dir @ str ''/l.rs'' then top_dir @ str ''/a.rs'' else p)\<rparr>)))
        (top_dir @ str ''/notes.txt'')) = Some (str ''video_data:'') \<and>
   top_dir @ str ''/notes.txt'' \<notin>
     set (transformed (fst (walk_loop (Dir True [] [str ''a.rs'', str ''l.rs'', str ''notes.txt''])
        ((world_of [(top_dir @ str ''/a.rs'', plain_file (str ''video_data:'')),
                    (top_dir @ str ''/notes.txt'', plain_file (str ''video_data:''))])
           \<lparr>resolve := (\<lambda>p. if p = top_dir @ str ''/l.rs'' then top_dir @ str ''/a.rs'' else p)\<rparr>)))) \<and>
   str ''Fixed patterns in '' @ top_dir @ str ''/notes.txt'' \<notin>
     set (stdout (fst (walk_loop (Dir True [] [str ''a.rs'', str ''l.rs'', str ''notes.txt''])
        ((world_of [(top_dir @ str ''/a.rs'', plain_file (str ''video_data:'')),
                    (top_dir @ str ''/notes.txt'', plain_file (str ''video_data:''))])
           \<lparr>resolve := (\<lambda>p. if p = top_dir @ str ''/l.rs'' then top_dir @ str ''/a.rs'' else p)\<rparr>))))"
proof -
  let ?q = "top_dir @ str ''/notes.txt''"
  let ?t = "Dir True [] [str ''a.rs'', str ''l.rs'', str ''notes.txt'']"
  let ?w = "(world_of [(top_dir @ str ''/a.rs'', plain_file (str ''video_data:'')),
                    (top_dir @ str ''/notes.txt'', plain_file (str ''video_data:''))])
           \<lparr>resolve := (\<lambda>p. if p = top_dir @ str ''/l.rs'' then top_dir @ str ''/a.rs'' else p)\<rparr>"
  have n: "\<not> endswith ?q (str ''.rs'')"
    by (simp add: endswith_eval str_def)
  have ne: "top_dir @ str ''/a.rs'' \<noteq> ?q" "?q \<noteq> top_dir @ str ''/a.rs''"
    by (simp_all add: str_def)
  have l: "\<forall>p. endswith p (str ''.rs'') \<longrightarrow> resolve ?w p \<noteq> ?q"
    using n ne by (auto simp: world_of_def)
  have d: "disk ?w ?q = Some (plain_file (str ''video_data:''))"
    using ne by (simp add: world_of_def)
  have s: "stdout ?w = []" "transformed ?w = []"
    by (simp_all add: world_of_def)
  from other_files_untouched [of ?t ?w ?q] l n
  have "disk (fst (main ?t ?w)) ?q = disk ?w ?q"
    and "untouched ?q ?w (fst (walk_loop ?t ?w))"
    and "quiet ?q ?w (fst (walk_loop ?t ?w))"
    by blast+
  then show ?thesis
    unfolding untouched_def quiet_def d s
    by (auto simp: plain_file_def)
qed

text \<open>
  C1. The claim fails on the module as it is: line 25 is refused, the run ends with
  \<open>SyntaxError\<close>, and \<open>a.rs\<close> keeps \<open>x video_data: y\<close>, which is not the fold of the
  patterns over it, \<open>x render_data: y\<close>. With the test of line 25 taken as \<open>!=\<close> the
  loops do leave the fold in the file.
\<close>

theorem fold_not_written:
  "main (Dir True [] [str ''a.rs''])
        (world_of [(top_dir @ str ''/a.rs'', plain_file (str ''x video_data: y''))]) =
     (world_of [(top_dir @ str ''/a.rs'', plain_file (str ''x video_data: y''))], Some SyntaxError) \<and>
   apply_patterns patterns (str ''x video_data: y'') = str ''x render_data: y'' \<and>
   map_option content
     (disk (fst (main (Dir True [] [str ''a.rs''])
                      (world_of [(top_dir @ str ''/a.rs'', plain_file (str ''x video_data: y''))])))
        (top_dir @ str ''/a.rs'')) = Some (str ''x video_data: y'') \<and>
   map_option content
     (disk (fst (walk_loop (Dir True [] [str ''a.rs''])
                      (world_of [(top_dir @ str ''/a.rs'', plain_file (str ''x video_data: y''))])))
        (top_dir @ str ''/a.rs'')) = Some (str ''x render_data: y'')"
proof -
  have t: "apply_patterns patterns (str ''x video_data: y'') = str ''x render_data: y''"
    by (simp add: eval_simps)
  have b: "map_option content
     (disk (fst (walk_loop (Dir True [] [str ''a.rs''])
                      (world_of [(top_dir @ str ''/a.rs'', plain_file (str ''x video_data: y''))])))
        (top_dir @ str ''/a.rs'')) = Some (str ''x render_data: y'')"
    by (simp add: run_simps)
  show ?thesis
    unfolding main_refused using t b by (simp add: world_of_def plain_file_def)
qed

text \<open>
  C2. The claim fails on the module as it is: the transformed content of \<open>a.rs\<close> differs
  from its content, yet the run, which ends with \<open>SyntaxError\<close>, has not written the file
  and has printed nothing. With the test of line 25 taken as \<open>!=\<close> the loops write the
  file once and print the one line.
\<close>

theorem changed_file_not_overwritten:
  "apply_patterns patterns (str ''S { tally_data: None, }'') = str ''S {  }'' \<and>
   map_option content
     (disk (fst (main (Dir True [] [str ''a.rs''])
                      (world_of [(top_dir @ str ''/a.rs'', plain_file (str ''S { tally_data: None, }''))])))
        (top_dir @ str ''/a.rs'')) = Some (str ''S { tally_data: None, }'') \<and>
   map_option writes
     (disk (fst (main (Dir True [] [str ''a.rs''])
                      (world_of [(top_dir @ str ''/a.rs'', plain_file (str ''S { tally_data: None, }''))])))
        (top_dir @ str ''/a.rs'')) = Some 0 \<and>
   stdout (fst (main (Dir True [] [str ''a.rs''])
                      (world_of [(top_dir @ str ''/a.rs'', plain_file (str ''S { tally_data: None, }''))]))) = [] \<and>
   map_option writes
     (disk (fst (walk_loop (Dir True [] [str ''a.rs''])
                      (world_of [(top_dir @ str ''/a.rs'', plain_file (str ''S { tally_data: None, }''))])))
        (top_dir @ str ''/a.rs'')) = Some 1 \<and>
   stdout (fst (walk_loop (Dir True [] [str ''a.rs''])
                      (world_of [(top_dir @ str ''/a.rs'', plain_file (str ''S { tally_data: None, }''))]))) =
     [str ''Fixed patterns in '' @ top_dir @ str ''/a.rs'']"
proof -
  have t: "apply_patterns patterns (str ''S { tally_data: None, }'') = str ''S {  }''"
    by (simp add: eval_simps)
  have b: "map_option writes
     (disk (fst (walk_loop (Dir True [] [str ''a.rs''])
                      (world_of [(top_dir @ str ''/a.rs'', plain_file (str ''S { tally_data: None, }''))])))
        (top_dir @ str ''/a.rs'')) = Some 1"
    "stdout (fst (walk_loop (Dir True [] [str ''a.rs''])
                      (world_of [(top_dir @ str ''/a.rs'', plain_file (str ''S { tally_data: None, }''))]))) =
     [str ''Fixed patterns in '' @ top_dir @ str ''/a.rs'']"
    by (simp_all add: run_simps)
  show ?thesis
    unfolding main_refused using t b by (simp add: world_of_def plain_file_def)
qed

text \<open>
  C8. The claim fails on the module as it is: the content of \<open>n.rs\<close> contains
  \<open>Some(frame)\<close>, yet the run, which ends with \<open>SyntaxError\<close>, leaves the file as it was
  and prints nothing. With the test of line 25 taken as \<open>!=\<close> the loops put
  \<open>Some(RenderData::Raster2D(frame))\<close> in its place and print the line.
\<close>

theorem some_frame_not_rewritten:
  "map_option content
     (disk (fst (main (Dir True [] [str ''n.rs''])
                      (world_of [(top_dir @ str ''/n.rs'', plain_file (str ''let a = Some(frame);''))])))
        (top_dir @ str ''/n.rs'')) = Some (str ''let a = Some(frame);'') \<and>
   stdout (fst (main (Dir True [] [str ''n.rs''])
                      (world_of [(top_dir @ str ''/n.rs'', plain_file (str ''let a = Some(frame);''))]))) = [] \<and>
   snd (main (Dir True [] [str ''n.rs''])
             (world_of [(top_dir @ str ''/n.rs'', plain_file (str ''let a = Some(frame);''))])) =
     Some SyntaxError \<and>
   map_option content
     (disk (fst (walk_loop (Dir True [] [str ''n.rs''])
                      (world_of [(top_dir @ str ''/n.rs'', plain_file (str ''let a = Some(frame);''))])))
        (top_dir @ str ''/n.rs'')) = Some (str ''let a = Some(RenderData::Raster2D(frame));'') \<and>
   stdout (fst (walk_loop (Dir True [] [str ''n.rs''])
                      (world_of [(top_dir @ str ''/n.rs'', plain_file (str ''let a = Some(frame);''))]))) =
     [str ''Fixed patterns in '' @ top_dir @ str ''/n.rs'']"
proof -
  have b: "map_option content
     (disk (fst (walk_loop (Dir True [] [str ''n.rs''])
                      (world_of [(top_dir @ str ''/n.rs'', plain_file (str ''let a = Some(frame);''))])))
        (top_dir @ str ''/n.rs'')) = Some (str ''let a = Some(RenderData::Raster2D(frame));'')"
    "stdout (fst (walk_loop (Dir True [] [str ''n.rs''])
                      (world_of [(top_dir @ str ''/n.rs'', plain_file (str ''let a = Some(frame);''))]))) =
     [str ''Fixed patterns in '' @ top_dir @ str ''/n.rs'']"
    by (simp_all add: run_simps)
  show ?thesis
    unfolding main_refused using b by (simp add: world_of_def plain_file_def)
qed

end
